theory Spec2Isabelle
  imports Complex_Main "HOL-Library.Word"
begin

unbundle bit_operations_syntax

section \<open>Data model\<close>

text \<open>
  Python \<^verbatim>\<open>bytes\<close> values are lists of 8-bit words; Python integers are unbounded and
  are modelled by \<^typ>\<open>int\<close>; Python \<^verbatim>\<open>str\<close> values are modelled by \<^typ>\<open>string\<close>
  (every character the functions below accept is ASCII).
\<close>

type_synonym byte = "8 word"
type_synonym bytes = "byte list"

text \<open>The exceptions the modelled code can raise.\<close>

datatype exn = ValueError | OverflowError | AttributeError | TypeError | ValidationError

section \<open>miner.py: \<^verbatim>\<open>count_leading_zero_bits\<close>\<close>

text \<open>
  The inner loop \<^verbatim>\<open>for i in range(7, -1, -1)\<close> of one non-zero byte: \<open>Inl r\<close> is the
  \<^verbatim>\<open>return leading_zeros\<close> taken at the first set bit, \<open>Inr lz\<close> is the counter when the
  range is exhausted and control falls through to the next byte of the outer loop.
\<close>

fun scan_byte :: "byte \<Rightarrow> nat list \<Rightarrow> int \<Rightarrow> int + int" where
  "scan_byte byte [] leading_zeros = Inr leading_zeros"
| "scan_byte byte (i # is) leading_zeros =
     (if byte AND push_bit i 1 \<noteq> 0 then Inl leading_zeros
      else scan_byte byte is (leading_zeros + 1))"

text \<open>The outer loop \<^verbatim>\<open>for byte in data\<close>, with the running counter.\<close>

fun scan_bytes :: "bytes \<Rightarrow> int \<Rightarrow> int" where
  "scan_bytes [] leading_zeros = leading_zeros"
| "scan_bytes (byte # data) leading_zeros =
     (if byte = 0 then scan_bytes data (leading_zeros + 8)
      else (case scan_byte byte [7, 6, 5, 4, 3, 2, 1, 0] leading_zeros of
              Inl r \<Rightarrow> r
            | Inr lz \<Rightarrow> scan_bytes data lz))"

definition count_leading_zero_bits :: "bytes \<Rightarrow> int" where
  "count_leading_zero_bits data = scan_bytes data 0"

text \<open>
  The reference notion the specification words describe: the bits of the byte string, most
  significant bit of the first byte first, and the length of the run of zero bits in front.
\<close>

definition bits_msb :: "byte \<Rightarrow> bool list" where
  "bits_msb b = map (bit b) [7, 6, 5, 4, 3, 2, 1, 0]"

definition zero_run :: "bool list \<Rightarrow> nat" where
  "zero_run bs = length (takeWhile Not bs)"

definition leading_zero_bits :: "bytes \<Rightarrow> int" where
  "leading_zero_bits data = int (zero_run (concat (map bits_msb data)))"

section \<open>Python built-ins the code calls\<close>

text \<open>
  \<^verbatim>\<open>n.to_bytes(8, byteorder='big')\<close>: the 8 base-256 digits of \<open>n\<close>, most significant
  first; Python raises OverflowError for a negative \<open>n\<close> and for one that needs more than
  8 bytes.
\<close>

definition be8 :: "int \<Rightarrow> bytes" where
  "be8 n = map (\<lambda>i. word_of_int (n div 256 ^ i)) [7, 6, 5, 4, 3, 2, 1, 0]"

definition to_bytes8 :: "int \<Rightarrow> exn + bytes" where
  "to_bytes8 n = (if n < 0 \<or> 2 ^ 64 \<le> n then Inl OverflowError else Inr (be8 n))"

text \<open>The big-endian reading of a byte string (\<^verbatim>\<open>int.from_bytes(b, 'big')\<close>).\<close>

definition from_bytes_big :: "bytes \<Rightarrow> int" where
  "from_bytes_big bs = foldl (\<lambda>acc b. acc * 256 + uint b) 0 bs"







section \<open>crypto.py: \<^verbatim>\<open>key_from_privhex\<close>\<close>


section \<open>miner.py: \<^verbatim>\<open>parse_hex_string\<close>\<close>


section \<open>miner.py: the search\<close>

text \<open>What the program prints on standard output, one constructor per kind of line.\<close>

datatype line =
    Rule
  | Blank
  | Title string
  | Info string
  | BlockHashLine bytes
  | LedgerHashLine bytes
  | PublicKeyLine bytes
  | TargetZerosLine int
  | ExpectedIterationsLine int
  | NewBest int int bytes
  | BestNonce int
  | BestHash bytes
  | LeadingZeroBits int
  | TotalIterations int
  | TimeElapsed real
  | HashRate real
  | ErrorMsg string

text \<open>
  The module's globals (\<^verbatim>\<open>best_nonce\<close>, \<^verbatim>\<open>best_hash\<close>, \<^verbatim>\<open>best_leading_zeros\<close>,
  \<^verbatim>\<open>iterations\<close>, \<^verbatim>\<open>start_time\<close>), the local \<^verbatim>\<open>nonce\<close> of \<^verbatim>\<open>mine\<close>, and standard
  output. \<open>evals\<close> is a ghost field: the calls of \<^verbatim>\<open>sha256\<close> made so far, argument and
  result, in order. Of the progress bar only the constructor is modelled (a parameter of
  \<^verbatim>\<open>mine\<close>); its updates are taken not to raise and print nothing that matters here.
\<close>

record state =
  best_nonce :: int
  best_hash :: "bytes option"
  best_leading_zeros :: int
  iterations :: int
  start_time :: "real option"
  nonce :: int
  stdout :: "line list"
  evals :: "(bytes \<times> bytes) list"

text \<open>The values the module gives its globals when it is loaded (lines 15 to 19).\<close>

definition globals0 :: state where
  "globals0 = \<lparr>best_nonce = 0, best_hash = None, best_leading_zeros = 0, iterations = 0,
                start_time = None, nonce = 0, stdout = [], evals = []\<rparr>"

text \<open>
  What stays fixed during one call of \<^verbatim>\<open>mine\<close>. \<open>sha256\<close> is \<^verbatim>\<open>crypto.sha256\<close>, that is
  \<^verbatim>\<open>hashlib.sha256(data).digest()\<close>: the library function is a parameter of the model.
  \<open>time_at_target\<close> is the reading of \<^verbatim>\<open>time.time()\<close> in the target branch (line 127).
\<close>

record config =
  sha256 :: "bytes \<Rightarrow> bytes"
  time_at_target :: real
  pre_data :: bytes
  target_zeros :: "int option"
  max_iterations :: "int option"

datatype flow = Continue | Break | Raise exn

datatype outcome = Returned | Raised exn | Exited int

text \<open>\<^verbatim>\<open>limit and value >= limit\<close> for an optional integer: None and 0 are both falsy.\<close>

definition reached :: "int option \<Rightarrow> int \<Rightarrow> bool" where
  "reached limit v = (case limit of None \<Rightarrow> False | Some n \<Rightarrow> n \<noteq> 0 \<and> v \<ge> n)"

text \<open>
  The summary block, printed line by line; the source has it twice, in the target branch of
  \<^verbatim>\<open>mine\<close> (lines 128 to 138) and in \<^verbatim>\<open>signal_handler\<close> (lines 55 to 65), differing in
  the title only. \<^verbatim>\<open>best_hash.hex()\<close> raises AttributeError on None, after the lines
  before it have been printed.
\<close>

definition report :: "string \<Rightarrow> real \<Rightarrow> state \<Rightarrow> line list \<times> exn option" where
  "report title elapsed s =
     (let front = [Rule, Title title, Rule, BestNonce (best_nonce s)]
      in case best_hash s of
           None \<Rightarrow> (front, Some AttributeError)
         | Some h \<Rightarrow>
             (front @ [BestHash h, LeadingZeroBits (best_leading_zeros s),
                       TotalIterations (iterations s), TimeElapsed elapsed]
                @ (if elapsed > 0 then [HashRate (real_of_int (iterations s) / elapsed)] else [])
                @ [Rule], None))"

text \<open>Lines 141 to 147: count the iteration, advance the nonce, test the cap.\<close>

definition finish_iteration :: "config \<Rightarrow> state \<Rightarrow> flow \<times> state" where
  "finish_iteration c s =
     (let s' = s\<lparr>iterations := iterations s + 1, nonce := nonce s + 1\<rparr>
      in if reached (max_iterations c) (iterations s') then (Break, s') else (Continue, s'))"

text \<open>One pass through the body of \<^verbatim>\<open>while True\<close> (lines 107 to 147).\<close>

definition iteration :: "config \<Rightarrow> state \<Rightarrow> flow \<times> state" where
  "iteration c s =
     (case to_bytes8 (nonce s) of
        Inl e \<Rightarrow> (Raise e, s)
      | Inr nonce_bytes \<Rightarrow>
          (let data_to_hash = pre_data c @ nonce_bytes;
               hash_result = sha256 c data_to_hash;
               s1 = s\<lparr>evals := evals s @ [(data_to_hash, hash_result)]\<rparr>;
               leading_zeros = count_leading_zero_bits hash_result
           in if leading_zeros > best_leading_zeros s1 then
                (let s2 = s1\<lparr>best_nonce := nonce s1, best_hash := Some hash_result,
                              best_leading_zeros := leading_zeros,
                              stdout := stdout s1 @ [NewBest (nonce s1) leading_zeros hash_result]\<rparr>
                 in if reached (target_zeros c) leading_zeros then
                      (case start_time s2 of
                         None \<Rightarrow> (Raise TypeError, s2)
                       | Some t0 \<Rightarrow>
                           (let r = report ''TARGET DIFFICULTY REACHED!'' (time_at_target c - t0) s2;
                                s3 = s2\<lparr>stdout := stdout s2 @ fst r\<rparr>
                            in case snd r of None \<Rightarrow> (Break, s3) | Some e \<Rightarrow> (Raise e, s3)))
                    else finish_iteration c s2)
              else finish_iteration c s1))"

text \<open>
  The loop. It ends: a pass that continues has encoded its nonce, so the nonce was below
  \<open>2 ^ 64\<close>, and has advanced it by one.
\<close>

function mine_loop :: "config \<Rightarrow> state \<Rightarrow> outcome \<times> state" where
  "mine_loop c s =
     (case iteration c s of
        (Continue, s') \<Rightarrow> mine_loop c s'
      | (Break, s') \<Rightarrow> (Returned, s')
      | (Raise e, s') \<Rightarrow> (Raised e, s'))"
  by pat_completeness auto
termination
proof (relation "measure (\<lambda>(c, s). nat (2 ^ 64 - nonce s))")
  show "wf (measure (\<lambda>(c, s). nat (2 ^ 64 - nonce s)))"
    by simp
next
  fix c :: config and s s' :: state and x
  assume "(x, s') = iteration c s" and "x = Continue"
  then have it: "iteration c s = (Continue, s')"
    by simp
  have fin: "nonce s' = nonce t + 1" if "finish_iteration c t = (Continue, s')" for t
    using that by (auto simp: finish_iteration_def Let_def split: if_splits)
  have "nonce s' = nonce s + 1 \<and> nonce s < 2 ^ 64"
  proof (cases "to_bytes8 (nonce s)")
    case (Inl e)
    with it show ?thesis
      by (simp add: iteration_def)
  next
    case (Inr nonce_bytes)
    then have "nonce s < 2 ^ 64"
      by (simp add: to_bytes8_def split: if_splits)
    moreover from it Inr have "nonce s' = nonce s + 1"
      by (auto simp: iteration_def Let_def split: if_splits option.splits dest!: fin)
    ultimately show ?thesis
      by simp
  qed
  then show "((c, s'), (c, s)) \<in> measure (\<lambda>(c, s). nat (2 ^ 64 - nonce s))"
    by simp
qed

text \<open>
  The start of \<^verbatim>\<open>mine\<close> (lines 82 to 102). The banner prints the three header fields and,
  for a truthy target, the target and \<^verbatim>\<open>2 ** target_zeros\<close> with thousands separators
  (line 94). Python (3.11, default settings) refuses to convert an integer of more than 4300
  decimal digits to text and raises ValueError: \<open>2 ^ 14285\<close> is the first power of two that
  long. A negative target gives a float, which always prints.
\<close>

definition expected_iterations_raises :: "int option \<Rightarrow> bool" where
  "expected_iterations_raises tz = (case tz of None \<Rightarrow> False | Some t \<Rightarrow> 14285 \<le> t)"

definition banner_head :: "bytes \<Rightarrow> bytes \<Rightarrow> bytes \<Rightarrow> line list" where
  "banner_head block_hash ledger_hash pub =
     [Rule, Title ''MINING STARTED'', Rule,
      BlockHashLine block_hash, LedgerHashLine ledger_hash, PublicKeyLine pub]"

definition banner :: "bytes \<Rightarrow> bytes \<Rightarrow> bytes \<Rightarrow> int option \<Rightarrow> line list" where
  "banner block_hash ledger_hash pub tz =
     banner_head block_hash ledger_hash pub
       @ (case tz of
            None \<Rightarrow> []
          | Some t \<Rightarrow> if t \<noteq> 0 then [TargetZerosLine t, ExpectedIterationsLine t] else [])
       @ [Rule, Blank]"

text \<open>
  The total handed to the progress bar (line 99): the cap when it is truthy, else
  \<^verbatim>\<open>2 ** target_zeros\<close> when the target is truthy (an integer for a positive target, a
  float for a negative one), else None.
\<close>

datatype progress_total = NoTotal | IntTotal int | FloatTotal int

definition power_of_two :: "int \<Rightarrow> progress_total" where
  "power_of_two t = (if 0 \<le> t then IntTotal (2 ^ nat t) else FloatTotal t)"

definition total_iterations :: "int option \<Rightarrow> int option \<Rightarrow> progress_total" where
  "total_iterations tz mi =
     (let from_target = (case tz of
                           None \<Rightarrow> NoTotal
                         | Some t \<Rightarrow> if t \<noteq> 0 then power_of_two t else NoTotal)
      in case mi of
           None \<Rightarrow> from_target
         | Some m \<Rightarrow> if m \<noteq> 0 then IntTotal m else from_target)"

definition mine_config ::
  "(bytes \<Rightarrow> bytes) \<Rightarrow> real \<Rightarrow> bytes \<Rightarrow> bytes \<Rightarrow> bytes \<Rightarrow> int option \<Rightarrow> int option \<Rightarrow> config" where
  "mine_config H t1 block_hash ledger_hash pub tz mi =
     \<lparr>sha256 = H, time_at_target = t1, pre_data = block_hash @ ledger_hash @ pub,
      target_zeros = tz, max_iterations = mi\<rparr>"

text \<open>
  The state in which the loop is entered, when nothing before it has raised: the clock has
  been read (line 82), the local \<^verbatim>\<open>nonce\<close> is 0 (line 83) and the banner is printed. The
  other globals keep the values they had at the call.
\<close>

definition mine_start ::
  "real \<Rightarrow> bytes \<Rightarrow> bytes \<Rightarrow> bytes \<Rightarrow> int option \<Rightarrow> state \<Rightarrow> state" where
  "mine_start t0 block_hash ledger_hash pub tz g =
     g\<lparr>start_time := Some t0, nonce := 0,
       stdout := stdout g @ banner block_hash ledger_hash pub tz\<rparr>"

text \<open>
  \<^verbatim>\<open>mine\<close>. \<open>H\<close> is the digest function; \<open>P\<close> is the constructor of the progress bar
  (\<^verbatim>\<open>tqdm\<close>, line 102), a library call that is a parameter of the model: it gets the total
  and returns the exception it raises, if any. \<open>g\<close> is the state of the globals at the call,
  \<open>t0\<close> the reading of the clock at line 82 and \<open>t1\<close> the one at line 127. When line 94
  raises, the banner has been printed up to the target line.
\<close>

definition mine ::
  "(bytes \<Rightarrow> bytes) \<Rightarrow> (progress_total \<Rightarrow> exn option) \<Rightarrow> real \<Rightarrow> real \<Rightarrow> bytes \<Rightarrow> bytes \<Rightarrow> bytes
     \<Rightarrow> int option \<Rightarrow> int option \<Rightarrow> state \<Rightarrow> outcome \<times> state" where
  "mine H P t0 t1 block_hash ledger_hash pub tz mi g =
     (if expected_iterations_raises tz then
        (Raised ValueError,
         g\<lparr>start_time := Some t0, nonce := 0,
           stdout := stdout g @ banner_head block_hash ledger_hash pub
                       @ (case tz of None \<Rightarrow> [] | Some t \<Rightarrow> [TargetZerosLine t])\<rparr>)
      else (case P (total_iterations tz mi) of
              Some e \<Rightarrow> (Raised e, mine_start t0 block_hash ledger_hash pub tz g)
            | None \<Rightarrow>
                mine_loop (mine_config H t1 block_hash ledger_hash pub tz mi)
                  (mine_start t0 block_hash ledger_hash pub tz g)))"

text \<open>
  The state in which an interrupt that arrives after \<open>k\<close> completed passes finds the
  globals; None when the loop has ended before.
\<close>

fun iterate :: "config \<Rightarrow> nat \<Rightarrow> state \<Rightarrow> state option" where
  "iterate c 0 s = Some s"
| "iterate c (Suc k) s =
     (case iteration c s of (Continue, s') \<Rightarrow> iterate c k s' | _ \<Rightarrow> None)"

text \<open>\<^verbatim>\<open>signal_handler\<close>, run on the globals as they stand; \<open>now\<close> is the clock reading.\<close>

definition signal_handler :: "real \<Rightarrow> state \<Rightarrow> outcome \<times> state" where
  "signal_handler now s =
     (case start_time s of
        None \<Rightarrow> (Raised TypeError, s)
      | Some t0 \<Rightarrow>
          (let r = report ''MINING INTERRUPTED'' (now - t0) s;
               s' = s\<lparr>stdout := stdout s @ fst r\<rparr>
           in case snd r of None \<Rightarrow> (Exited 0, s') | Some e \<Rightarrow> (Raised e, s')))"




text \<open>
  The key libraries are parameters: \<open>K\<close> is \<^verbatim>\<open>key_from_mnemonic\<close> (the account library's
  derivation from a phrase) and \<open>C\<close> is \<^verbatim>\<open>derive_public\<close> followed by
  \<^verbatim>\<open>to_compressed_bytes\<close> (the curve library); either may raise, and nothing in \<^verbatim>\<open>main\<close>
  catches it, nor the ValueError of \<^verbatim>\<open>key_from_privhex\<close>. Both key options together make
  \<^verbatim>\<open>argparse\<close> exit with status 2. The installation of the signal handler (line 209) has
  no effect on the state.
\<close>



section \<open>Notions used to state the properties\<close>



text \<open>The payload, the digest and the count of leading zero bits that belong to a nonce.\<close>

definition payload_at :: "config \<Rightarrow> int \<Rightarrow> bytes" where
  "payload_at c n = pre_data c @ be8 n"

definition digest_at :: "config \<Rightarrow> int \<Rightarrow> bytes" where
  "digest_at c n = sha256 c (payload_at c n)"

definition zeros_at :: "config \<Rightarrow> int \<Rightarrow> int" where
  "zeros_at c n = count_leading_zero_bits (digest_at c n)"

text \<open>
  What holds of the recorded best once the nonces \<open>0\<close> to \<open>e - 1\<close> have been hashed,
  starting from the module's initial globals.
\<close>

definition best_inv :: "config \<Rightarrow> nat \<Rightarrow> state \<Rightarrow> bool" where
  "best_inv c e s \<longleftrightarrow>
     evals s = map (\<lambda>n. (payload_at c (int n), digest_at c (int n))) [0..<e]
     \<and> (\<forall>n. 0 \<le> n \<and> n < int e \<longrightarrow> zeros_at c n \<le> best_leading_zeros s)
     \<and> (case best_hash s of
          None \<Rightarrow> best_nonce s = 0 \<and> best_leading_zeros s = 0
        | Some h \<Rightarrow>
            0 \<le> best_nonce s \<and> best_nonce s < int e
            \<and> h = digest_at c (best_nonce s)
            \<and> best_leading_zeros s = zeros_at c (best_nonce s)
            \<and> 0 < best_leading_zeros s
            \<and> (\<forall>n. 0 \<le> n \<and> n < best_nonce s \<longrightarrow> zeros_at c n < best_leading_zeros s))"

text \<open>The state between two passes, \<open>k\<close> passes after the start.\<close>

definition between :: "config \<Rightarrow> nat \<Rightarrow> state \<Rightarrow> bool" where
  "between c k s \<longleftrightarrow>
     nonce s = int k \<and> iterations s = int k \<and> int k \<le> 2 ^ 64 \<and> start_time s \<noteq> None
     \<and> best_inv c k s"

text \<open>
  A stand-in digest function for the concrete runs below, cheap to evaluate: 32 bytes, the
  first being 0xFF shifted right by the last byte of the message and the others 0xFF, so that
  nonce \<open>n\<close> has \<open>n\<close> leading zero bits for \<open>n\<close> up to 8.
\<close>

definition demo_hash :: "bytes \<Rightarrow> bytes" where
  "demo_hash m = drop_bit (unat (last m)) (0xFF :: byte) # 0xFF # replicate 30 0xFF"

section \<open>Leading zero bits\<close>

lemma scan_byte_bits:
  "scan_byte byte is lz =
     (if \<exists>i \<in> set is. bit byte i then Inl (lz + int (zero_run (map (bit byte) is)))
      else Inr (lz + int (length is)))"
  by (induction "is" arbitrary: lz)
     (auto simp: zero_run_def bit_iff_and_push_bit_not_eq_0)

lemma byte_nonzero_bit:
  fixes byte :: byte
  assumes "byte \<noteq> 0"
  shows "\<exists>i \<in> set [7, 6, 5, 4, 3, 2, 1, 0]. bit byte i"
proof -
  from assms obtain n where n: "bit byte n"
    by (auto simp: bit_eq_iff)
  then have "n < 8"
    by (auto dest: bit_imp_le_length)
  then have "n \<in> {0, 1, 2, 3, 4, 5, 6, 7}"
    by auto
  with n show ?thesis
    by auto
qed

lemma bits_msb_zero: "bits_msb 0 = replicate 8 False"
  by (simp add: bits_msb_def eval_nat_numeral)

lemma zero_run_replicate_False: "zero_run (replicate n False @ bs) = n + zero_run bs"
  by (induction n) (simp_all add: zero_run_def)

lemma zero_run_stops:
  "\<exists>b \<in> set bs. b \<Longrightarrow> zero_run (bs @ cs) = zero_run bs"
  by (induction bs) (auto simp: zero_run_def)

lemma zero_run_le: "zero_run bs \<le> length bs"
  by (simp add: zero_run_def length_takeWhile_le)

lemma zero_run_less: "\<exists>b \<in> set bs. b \<Longrightarrow> zero_run bs < length bs"
  by (induction bs) (auto simp: zero_run_def)

lemma bits_msb_nonzero:
  fixes byte :: byte
  shows "byte \<noteq> 0 \<Longrightarrow> \<exists>b \<in> set (bits_msb byte). b"
  using byte_nonzero_bit [of byte] by (auto simp: bits_msb_def)

lemma scan_bytes_spec:
  "scan_bytes data lz = lz + int (zero_run (concat (map bits_msb data)))"
proof (induction data arbitrary: lz)
  case Nil
  show ?case by (simp add: zero_run_def)
next
  case (Cons byte data)
  show ?case
  proof (cases "byte = 0")
    case True
    have "zero_run (concat (map bits_msb (0 # data)))
            = 8 + zero_run (concat (map bits_msb data))"
      using zero_run_replicate_False [of 8] by (simp add: bits_msb_zero)
    with True Cons.IH [of "lz + 8"] show ?thesis by simp
  next
    case False
    from False have ex: "\<exists>i \<in> set [7, 6, 5, 4, 3, 2, 1, 0]. bit byte i"
      by (rule byte_nonzero_bit)
    have "scan_byte byte [7, 6, 5, 4, 3, 2, 1, 0] lz = Inl (lz + int (zero_run (bits_msb byte)))"
      unfolding scan_byte_bits bits_msb_def using ex by simp
    moreover have "zero_run (concat (map bits_msb (byte # data))) = zero_run (bits_msb byte)"
      using zero_run_stops [OF bits_msb_nonzero [OF False]] by simp
    ultimately show ?thesis using False by simp
  qed
qed

lemma count_eq_spec: "count_leading_zero_bits data = leading_zero_bits data"
  by (simp add: count_leading_zero_bits_def leading_zero_bits_def scan_bytes_spec)

lemma leading_zero_bits_zero_byte:
  "leading_zero_bits (0 # data) = 8 + leading_zero_bits data"
  using zero_run_replicate_False [of 8 "concat (map bits_msb data)"]
  by (simp add: leading_zero_bits_def bits_msb_zero)

lemma leading_zero_bits_nonzero_byte:
  "byte \<noteq> 0 \<Longrightarrow> leading_zero_bits (byte # data) = int (zero_run (bits_msb byte))"
  using zero_run_stops [OF bits_msb_nonzero, of byte "concat (map bits_msb data)"]
  by (simp add: leading_zero_bits_def)

lemma leading_zero_bits_all_zero:
  "leading_zero_bits (replicate n 0) = 8 * int n"
  by (induction n) (simp_all add: leading_zero_bits_zero_byte, simp add: leading_zero_bits_def zero_run_def)

lemma zero_run_byte_le_7:
  fixes byte :: byte
  shows "byte \<noteq> 0 \<Longrightarrow> zero_run (bits_msb byte) \<le> 7"
  using zero_run_less [OF bits_msb_nonzero, of byte] by (simp add: bits_msb_def)

text \<open>
  C3. For every byte string, \<^verbatim>\<open>count_leading_zero_bits\<close> is the number of consecutive zero
  bits from the most significant bit: a zero byte contributes 8, the first non-zero byte
  contributes its own leading zero bits (between 0 and 7) and ends the scan whatever follows,
  an all-zero input gives 8 times its length; 32 zero bytes give 256, a first byte 0xFF gives
  0, and the bytes 0x00 0x40 in front give 9.
\<close>

theorem count_leading_zero_bits_correct:
  "count_leading_zero_bits data = leading_zero_bits data
   \<and> count_leading_zero_bits (0 # data) = 8 + count_leading_zero_bits data
   \<and> (byte \<noteq> 0 \<longrightarrow>
        count_leading_zero_bits (byte # data) = int (zero_run (bits_msb byte))
        \<and> zero_run (bits_msb byte) \<le> 7)
   \<and> count_leading_zero_bits (replicate n 0) = 8 * int n
   \<and> count_leading_zero_bits (replicate 32 0) = 256
   \<and> count_leading_zero_bits (0xFF # data) = 0
   \<and> count_leading_zero_bits (0x00 # 0x40 # data) = 9"
proof -
  have ff: "leading_zero_bits (0xFF # data) = 0"
    by (subst leading_zero_bits_nonzero_byte) (simp_all add: bits_msb_def zero_run_def)
  have x40: "leading_zero_bits (0x40 # data) = 1"
    by (subst leading_zero_bits_nonzero_byte) (simp_all add: bits_msb_def zero_run_def)
  show ?thesis
    unfolding count_eq_spec
    using leading_zero_bits_all_zero [of 32] ff x40
    by (simp add: leading_zero_bits_zero_byte leading_zero_bits_nonzero_byte
        leading_zero_bits_all_zero zero_run_byte_le_7)
qed

theorem count_leading_zero_bits_correct_witness:
  "(0x1F :: byte) \<noteq> 0
   \<and> count_leading_zero_bits [0x1F, 0x00] = int (zero_run (bits_msb 0x1F))
   \<and> zero_run (bits_msb 0x1F) = 3"
  using count_leading_zero_bits_correct [where data = "[0x00]" and byte = "0x1F"]
  by (simp add: count_leading_zero_bits_def bits_msb_def zero_run_def)

section \<open>The encoding of the nonce\<close>

lemma length_be8: "length (be8 n) = 8"
  by (simp add: be8_def)

lemma from_bytes_big_acc:
  "foldl (\<lambda>acc b. acc * 256 + uint (b :: byte)) a bs
     = a * 256 ^ length bs + foldl (\<lambda>acc b. acc * 256 + uint b) 0 bs"
proof (induction bs arbitrary: a)
  case Nil
  show ?case by simp
next
  case (Cons b bs)
  have "foldl (\<lambda>acc b. acc * 256 + uint (b :: byte)) (a * 256 + uint b) bs
          = (a * 256 + uint b) * 256 ^ length bs + foldl (\<lambda>acc b. acc * 256 + uint b) 0 bs"
    by (rule Cons.IH)
  moreover have "foldl (\<lambda>acc b. acc * 256 + uint (b :: byte)) (0 * 256 + uint b) bs
          = (0 * 256 + uint b) * 256 ^ length bs + foldl (\<lambda>acc b. acc * 256 + uint b) 0 bs"
    by (rule Cons.IH)
  ultimately show ?case
    by (simp add: algebra_simps)
qed

lemma from_bytes_big_Cons:
  "from_bytes_big (b # bs) = uint b * 256 ^ length bs + from_bytes_big bs"
  using from_bytes_big_acc [of "uint b" bs] by (simp add: from_bytes_big_def)

lemma from_bytes_big_digits:
  "from_bytes_big (map (\<lambda>i. word_of_int (n div 256 ^ i)) (rev [0..<k])) = n mod 256 ^ k"
proof (induction k)
  case 0
  show ?case by (simp add: from_bytes_big_def)
next
  case (Suc k)
  have "uint (word_of_int (n div 256 ^ k) :: byte) = n div 256 ^ k mod 256"
    by (simp add: uint_word_of_int take_bit_eq_mod)
  moreover have "n mod (256 ^ k * 256) = 256 ^ k * (n div 256 ^ k mod 256) + n mod 256 ^ k"
    by (rule zmod_zmult2_eq) simp
  ultimately show ?case
    using Suc.IH by (simp add: from_bytes_big_Cons mult.commute)
qed

lemma be8_digits: "be8 n = map (\<lambda>i. word_of_int (n div 256 ^ i)) (rev [0..<8])"
proof -
  have "rev [0..<8] = [7, 6, 5, 4, 3, 2, 1, 0 :: nat]"
    by (simp add: eval_nat_numeral)
  then show ?thesis
    by (simp add: be8_def)
qed

lemma from_bytes_be8:
  assumes "0 \<le> n" "n < 2 ^ 64"
  shows "from_bytes_big (be8 n) = n"
proof -
  have "from_bytes_big (be8 n) = n mod 256 ^ 8"
    unfolding be8_digits by (rule from_bytes_big_digits)
  also have "(256 :: int) ^ 8 = 2 ^ 64"
    by simp
  finally show ?thesis
    using assms by simp
qed

section \<open>One pass of the loop\<close>

lemma count_nonneg: "0 \<le> count_leading_zero_bits d"
  by (simp add: count_eq_spec leading_zero_bits_def)

lemma zeros_at_nonneg: "0 \<le> zeros_at c n"
  by (simp add: zeros_at_def count_nonneg)

lemma finish_iteration_eq:
  "finish_iteration c s =
     (if reached (max_iterations c) (iterations s + 1) then Break else Continue,
      s\<lparr>iterations := iterations s + 1, nonce := nonce s + 1\<rparr>)"
  by (simp add: finish_iteration_def Let_def)

lemma iteration_overflow:
  "nonce s < 0 \<or> 2 ^ 64 \<le> nonce s \<Longrightarrow> iteration c s = (Raise OverflowError, s)"
  by (auto simp: iteration_def to_bytes8_def)

lemma iteration_keep:
  assumes "0 \<le> nonce s" "nonce s < 2 ^ 64" "zeros_at c (nonce s) \<le> best_leading_zeros s"
  shows "iteration c s =
     finish_iteration c (s\<lparr>evals := evals s @ [(payload_at c (nonce s), digest_at c (nonce s))]\<rparr>)"
  using assms
  by (simp add: iteration_def to_bytes8_def Let_def zeros_at_def digest_at_def payload_at_def)

lemma iteration_improve:
  assumes "0 \<le> nonce s" "nonce s < 2 ^ 64" "best_leading_zeros s < zeros_at c (nonce s)"
    "\<not> reached (target_zeros c) (zeros_at c (nonce s))"
  shows "iteration c s =
     finish_iteration c
       (s\<lparr>evals := evals s @ [(payload_at c (nonce s), digest_at c (nonce s))],
          best_nonce := nonce s, best_hash := Some (digest_at c (nonce s)),
          best_leading_zeros := zeros_at c (nonce s),
          stdout := stdout s @ [NewBest (nonce s) (zeros_at c (nonce s)) (digest_at c (nonce s))]\<rparr>)"
  using assms
  by (simp add: iteration_def to_bytes8_def Let_def zeros_at_def digest_at_def payload_at_def)

lemma iteration_target:
  assumes "0 \<le> nonce s" "nonce s < 2 ^ 64" "best_leading_zeros s < zeros_at c (nonce s)"
    "reached (target_zeros c) (zeros_at c (nonce s))" "start_time s = Some t0"
  shows "iteration c s =
     (Break,
      s\<lparr>evals := evals s @ [(payload_at c (nonce s), digest_at c (nonce s))],
        best_nonce := nonce s, best_hash := Some (digest_at c (nonce s)),
        best_leading_zeros := zeros_at c (nonce s),
        stdout := stdout s @ [NewBest (nonce s) (zeros_at c (nonce s)) (digest_at c (nonce s))]
          @ [Rule, Title ''TARGET DIFFICULTY REACHED!'', Rule, BestNonce (nonce s),
             BestHash (digest_at c (nonce s)), LeadingZeroBits (zeros_at c (nonce s)),
             TotalIterations (iterations s), TimeElapsed (time_at_target c - t0)]
          @ (if time_at_target c - t0 > 0
             then [HashRate (real_of_int (iterations s) / (time_at_target c - t0))] else [])
          @ [Rule]\<rparr>)"
  using assms
  by (simp add: iteration_def to_bytes8_def Let_def zeros_at_def digest_at_def payload_at_def
      report_def)

lemma step_mono:
  assumes "iteration c s = (f, s2)"
  shows "best_leading_zeros s \<le> best_leading_zeros s2
     \<and> (best_nonce s2 = best_nonce s \<and> best_hash s2 = best_hash s
          \<and> best_leading_zeros s2 = best_leading_zeros s
        \<or> best_leading_zeros s < best_leading_zeros s2 \<and> best_nonce s2 = nonce s
          \<and> best_hash s2 = Some (digest_at c (nonce s))
          \<and> best_leading_zeros s2 = zeros_at c (nonce s))"
  using assms
  by (auto simp: iteration_def finish_iteration_eq Let_def zeros_at_def digest_at_def
      payload_at_def to_bytes8_def split: sum.splits option.splits if_splits)

section \<open>The invariant of the loop\<close>

lemma int_less_Suc: "(n::int) < int (Suc k) \<longleftrightarrow> n < int k \<or> n = int k"
  by auto

lemma best_inv_keepI:
  assumes "best_inv c k s" "zeros_at c (int k) \<le> best_leading_zeros s"
    "evals s' = evals s @ [(payload_at c (int k), digest_at c (int k))]"
    "best_nonce s' = best_nonce s" "best_hash s' = best_hash s"
    "best_leading_zeros s' = best_leading_zeros s"
  shows "best_inv c (Suc k) s'"
  using assms unfolding best_inv_def int_less_Suc
  by (auto split: option.splits)

lemma best_inv_improveI:
  assumes "best_inv c k s" "best_leading_zeros s < zeros_at c (int k)"
    "evals s' = evals s @ [(payload_at c (int k), digest_at c (int k))]"
    "best_nonce s' = int k" "best_hash s' = Some (digest_at c (int k))"
    "best_leading_zeros s' = zeros_at c (int k)"
  shows "best_inv c (Suc k) s'"
proof -
  from assms(1) have nonneg: "0 \<le> best_leading_zeros s"
    by (auto simp: best_inv_def split: option.splits)
  from assms(1) have below: "\<forall>n. 0 \<le> n \<and> n < int k \<longrightarrow> zeros_at c n \<le> best_leading_zeros s"
    by (simp add: best_inv_def)
  from assms(1) have ev: "evals s = map (\<lambda>n. (payload_at c (int n), digest_at c (int n))) [0..<k]"
    by (simp add: best_inv_def)
  show ?thesis
    unfolding best_inv_def int_less_Suc
    using nonneg below ev assms(2-6) by (auto simp: order.strict_trans1)
qed

lemma between_step:
  assumes b: "between c k s" and lt: "int k < 2 ^ 64" and it: "iteration c s = (f, s')"
  shows "best_inv c (Suc k) s' \<and> (\<forall>e. f \<noteq> Raise e)
         \<and> (f = Continue \<longrightarrow> between c (Suc k) s')"
proof -
  from b have n: "nonce s = int k" and i: "iterations s = int k" and inv: "best_inv c k s"
    by (simp_all add: between_def)
  from lt have le: "int (Suc k) \<le> 2 ^ 64"
    by simp
  from b obtain t0 where t0: "start_time s = Some t0"
    by (auto simp: between_def)
  have n0: "0 \<le> nonce s" "nonce s < 2 ^ 64"
    using n lt by simp_all
  consider (keep) "zeros_at c (nonce s) \<le> best_leading_zeros s"
    | (improve) "best_leading_zeros s < zeros_at c (nonce s)"
        "\<not> reached (target_zeros c) (zeros_at c (nonce s))"
    | (target) "best_leading_zeros s < zeros_at c (nonce s)"
        "reached (target_zeros c) (zeros_at c (nonce s))"
    by fastforce
  then show ?thesis
  proof cases
    case keep
    from it have e: "f = (if reached (max_iterations c) (iterations s + 1) then Break else Continue)"
      and s': "s' = s\<lparr>evals := evals s @ [(payload_at c (nonce s), digest_at c (nonce s))],
                       iterations := iterations s + 1, nonce := nonce s + 1\<rparr>"
      unfolding iteration_keep [OF n0 keep] finish_iteration_eq by simp_all
    have "best_inv c (Suc k) s'"
      using inv keep [unfolded n] by (rule best_inv_keepI) (simp_all add: s' n)
    then show ?thesis
      using e le by (simp add: between_def s' n i t0)
  next
    case improve
    from it have e: "f = (if reached (max_iterations c) (iterations s + 1) then Break else Continue)"
      and s': "s' = s\<lparr>evals := evals s @ [(payload_at c (nonce s), digest_at c (nonce s))],
          best_nonce := nonce s, best_hash := Some (digest_at c (nonce s)),
          best_leading_zeros := zeros_at c (nonce s),
          stdout := stdout s @ [NewBest (nonce s) (zeros_at c (nonce s)) (digest_at c (nonce s))],
          iterations := iterations s + 1, nonce := nonce s + 1\<rparr>"
      unfolding iteration_improve [OF n0 improve] finish_iteration_eq by simp_all
    have "best_inv c (Suc k) s'"
      using inv improve(1) [unfolded n] by (rule best_inv_improveI) (simp_all add: s' n)
    then show ?thesis
      using e le by (simp add: between_def s' n i t0)
  next
    case target
    from it have e: "f = Break"
      and bn: "best_nonce s' = nonce s" and bh: "best_hash s' = Some (digest_at c (nonce s))"
      and bz: "best_leading_zeros s' = zeros_at c (nonce s)"
      and ev: "evals s' = evals s @ [(payload_at c (nonce s), digest_at c (nonce s))]"
      unfolding iteration_target [OF n0 target t0] by auto
    have "best_inv c (Suc k) s'"
      using inv target(1) [unfolded n] by (rule best_inv_improveI) (simp_all add: ev bn bh bz n)
    then show ?thesis
      using e by simp
  qed
qed


lemma iteration_Continue:
  assumes "iteration c s = (Continue, s')"
  shows "0 \<le> nonce s \<and> nonce s < 2 ^ 64"
proof (rule ccontr)
  assume "\<not> ?thesis"
  then have "nonce s < 0 \<or> 2 ^ 64 \<le> nonce s"
    by auto
  from iteration_overflow [OF this, of c] assms show False
    by simp
qed

lemma iterate_between:
  "between c j s \<Longrightarrow> iterate c k s = Some s' \<Longrightarrow> between c (j + k) s'"
proof (induction k arbitrary: j s)
  case 0
  then show ?case by simp
next
  case (Suc k)
  from Suc.prems(2) obtain s1 where it: "iteration c s = (Continue, s1)"
    and rest: "iterate c k s1 = Some s'"
    by (auto split: prod.splits flow.splits)
  from iteration_Continue [OF it] Suc.prems(1) have "int j < 2 ^ 64"
    by (simp add: between_def)
  from between_step [OF Suc.prems(1) this it] have "between c (Suc j) s1"
    by simp
  from Suc.IH [OF this rest] show ?case
    by simp
qed

lemma mine_loop_inv:
  "between c k s \<Longrightarrow> mine_loop c s = (out, s')
     \<Longrightarrow> \<exists>e. k \<le> e \<and> (int k < 2 ^ 64 \<longrightarrow> k < e) \<and> int e \<le> 2 ^ 64 \<and> best_inv c e s'"
proof (induction c s arbitrary: k rule: mine_loop.induct)
  case (1 c s)
  obtain f s1 where it: "iteration c s = (f, s1)"
    by (cases "iteration c s")
  show ?case
  proof (cases "int k < 2 ^ 64")
    case True
    note step = between_step [OF "1.prems"(1) True it]
    show ?thesis
    proof (cases f)
      case Continue
      with step have "between c (Suc k) s1"
        by simp
      moreover from "1.prems"(2) it Continue have "mine_loop c s1 = (out, s')"
        by (subst (asm) mine_loop.simps) simp
      ultimately obtain e where "Suc k \<le> e" "int e \<le> 2 ^ 64" "best_inv c e s'"
        using "1.IH" [OF it [symmetric] Continue] by blast
      then show ?thesis
        by (intro exI [of _ e]) simp
    next
      case Break
      with "1.prems"(2) it have "s' = s1"
        by (subst (asm) mine_loop.simps) simp
      with step True show ?thesis
        by (intro exI [of _ "Suc k"]) simp
    next
      case (Raise e)
      with step show ?thesis
        by simp
    qed
  next
    case False
    with "1.prems"(1) have "2 ^ 64 \<le> nonce s"
      by (simp add: between_def)
    then have "iteration c s = (Raise OverflowError, s)"
      by (simp add: iteration_overflow)
    with "1.prems"(2) have "s' = s"
      by (subst (asm) mine_loop.simps) simp
    moreover from "1.prems"(1) have "int k \<le> 2 ^ 64" "best_inv c k s"
      by (simp_all add: between_def)
    ultimately show ?thesis
      using False by (intro exI [of _ k]) simp
  qed
qed

lemma between_start:
  "between (mine_config H t1 bh lh pub tz mi) 0 (mine_start t0 bh lh pub tz globals0)"
  by (simp add: between_def mine_start_def globals0_def best_inv_def)

section \<open>Runs of the search\<close>

lemmas run_defs = mine_def mine_config_def mine_start_def globals0_def mine_loop.simps
  iteration_def finish_iteration_eq to_bytes8_def be8_def demo_hash_def reached_def
  count_leading_zero_bits_def report_def Let_def expected_iterations_raises_def
  total_iterations_def banner_def banner_head_def

lemma start_nonce:
  "nonce (mine_start t0 bh lh pub tz g) = 0"
  "iterations (mine_start t0 bh lh pub tz g) = iterations g"
  "best_leading_zeros (mine_start t0 bh lh pub tz g) = best_leading_zeros g"
  "best_hash (mine_start t0 bh lh pub tz g) = best_hash g"
  "best_nonce (mine_start t0 bh lh pub tz g) = best_nonce g"
  "start_time (mine_start t0 bh lh pub tz g) = Some t0"
  "stdout (mine_start t0 bh lh pub tz g) = stdout g @ banner bh lh pub tz"
  "evals (mine_start t0 bh lh pub tz g) = evals g"
  by (simp_all add: mine_start_def)

lemma mine_entered:
  assumes "\<not> expected_iterations_raises tz" "P (total_iterations tz mi) = None"
  shows "mine H P t0 t1 bh lh pub tz mi g
           = mine_loop (mine_config H t1 bh lh pub tz mi) (mine_start t0 bh lh pub tz g)"
  using assms by (simp add: mine_def)

lemma mine_not_entered:
  assumes "expected_iterations_raises tz \<or> P (total_iterations tz mi) \<noteq> None"
  shows "evals (snd (mine H P t0 t1 bh lh pub tz mi g)) = evals g
         \<and> (\<exists>e. fst (mine H P t0 t1 bh lh pub tz mi g) = Raised e)"
  using assms by (auto simp: mine_def start_nonce)

text \<open>What one pass adds to the log of digest calls, whatever the state.\<close>

lemma iteration_evals:
  assumes "iteration c s = (f, s1)"
  shows "(nonce s < 0 \<or> 2 ^ 64 \<le> nonce s \<longrightarrow> s1 = s \<and> f = Raise OverflowError)
       \<and> (0 \<le> nonce s \<and> nonce s < 2 ^ 64 \<longrightarrow>
             evals s1 = evals s @ [(payload_at c (nonce s), digest_at c (nonce s))]
             \<and> (f = Continue \<longrightarrow> nonce s1 = nonce s + 1))"
  using assms
  by (auto simp: iteration_def finish_iteration_eq Let_def digest_at_def payload_at_def
      to_bytes8_def split: sum.splits option.splits if_splits)

lemma mine_loop_evals:
  "nonce s = int j \<Longrightarrow> mine_loop c s = (out, s')
     \<Longrightarrow> \<exists>k. evals s' = evals s
                 @ map (\<lambda>n. (payload_at c (int n), digest_at c (int n))) [j..<j + k]
             \<and> (int j < 2 ^ 64 \<longrightarrow> 0 < k \<and> int (j + k) \<le> 2 ^ 64)"
proof (induction c s arbitrary: j rule: mine_loop.induct)
  case (1 c s)
  obtain f s1 where it: "iteration c s = (f, s1)"
    by (cases "iteration c s")
  note ev = iteration_evals [OF it]
  show ?case
  proof (cases "int j < 2 ^ 64")
    case False
    with ev "1.prems"(1) have "s1 = s" "f = Raise OverflowError"
      by simp_all
    with it "1.prems"(2) have "s' = s"
      by (subst (asm) mine_loop.simps) simp
    with False show ?thesis
      by (intro exI [of _ 0]) simp
  next
    case True
    with ev "1.prems"(1) have e1: "evals s1 = evals s @ [(payload_at c (int j), digest_at c (int j))]"
      and n1: "f = Continue \<longrightarrow> nonce s1 = int (Suc j)"
      by simp_all
    show ?thesis
    proof (cases "f = Continue")
      case False
      with it "1.prems"(2) have "s' = s1"
        by (subst (asm) mine_loop.simps) (auto split: flow.splits)
      with e1 True show ?thesis
        by (intro exI [of _ 1]) simp
    next
      case c: True
      with it "1.prems"(2) have loop: "mine_loop c s1 = (out, s')"
        by (subst (asm) mine_loop.simps) simp
      from c n1 have "nonce s1 = int (Suc j)"
        by simp
      from "1.IH" [OF it [symmetric] c this loop] obtain k where
        k: "evals s' = evals s1
              @ map (\<lambda>n. (payload_at c (int n), digest_at c (int n))) [Suc j..<Suc j + k]"
        and b: "int (Suc j) < 2 ^ 64 \<longrightarrow> 0 < k \<and> int (Suc j + k) \<le> 2 ^ 64"
        by blast
      have le: "int (j + Suc k) \<le> 2 ^ 64"
      proof (cases "int (Suc j) < 2 ^ 64")
        case True
        with b show ?thesis by simp
      next
        case False
        then have "nonce s1 \<ge> 2 ^ 64"
          using \<open>nonce s1 = int (Suc j)\<close> by simp
        then have "iteration c s1 = (Raise OverflowError, s1)"
          by (simp add: iteration_overflow)
        with loop have "s' = s1"
          by (subst (asm) mine_loop.simps) simp
        moreover from k have "length (evals s') = length (evals s1) + k"
          by simp
        ultimately have "k = 0"
          by simp
        with True show ?thesis
          by simp
      qed
      have "[j..<j + Suc k] = j # [Suc j..<Suc j + k]"
        by (simp add: upt_rec)
      with k e1 le show ?thesis
        by (intro exI [of _ "Suc k"]) simp
    qed
  qed
qed

text \<open>
  C2. In every call of \<^verbatim>\<open>mine\<close>, whatever the globals hold, the calls of the digest function
  are, in order, those for the nonces 0, 1, 2, ...: the \<open>n\<close>-th call hashes block_hash, then
  ledger_hash, then pub, then the nonce as 8 bytes, big-endian, and its result is the digest
  function applied to exactly that payload. When the loop is entered, nonce 0 is hashed. With a
  32-byte block hash, a 32-byte ledger hash and a 33-byte key every payload has 105 bytes.
\<close>

theorem mining_payloads:
  assumes "mine H P t0 t1 block_hash ledger_hash pub tz mi g = (out, s')"
  shows "\<exists>k. evals s' = evals g
              @ map (\<lambda>n. (block_hash @ ledger_hash @ pub @ be8 (int n),
                           H (block_hash @ ledger_hash @ pub @ be8 (int n)))) [0..<k]
    \<and> int k \<le> 2 ^ 64
    \<and> (\<not> expected_iterations_raises tz \<and> P (total_iterations tz mi) = None \<longrightarrow> 0 < k)
    \<and> (\<forall>n < k. to_bytes8 (int n) = Inr (be8 (int n)) \<and> length (be8 (int n)) = 8
          \<and> from_bytes_big (be8 (int n)) = int n)
    \<and> (length block_hash = 32 \<and> length ledger_hash = 32 \<and> length pub = 33 \<longrightarrow>
          (\<forall>n < k. length (block_hash @ ledger_hash @ pub @ be8 (int n)) = 105))"
proof -
  let ?c = "mine_config H t1 block_hash ledger_hash pub tz mi"
  let ?s0 = "mine_start t0 block_hash ledger_hash pub tz g"
  let ?ev = "\<lambda>n. (block_hash @ ledger_hash @ pub @ be8 (int n),
                  H (block_hash @ ledger_hash @ pub @ be8 (int n)))"
  have enc: "to_bytes8 (int n) = Inr (be8 (int n)) \<and> length (be8 (int n)) = 8
          \<and> from_bytes_big (be8 (int n)) = int n" if "n < k" "int k \<le> 2 ^ 64" for n k
  proof -
    from that have "int n < 2 ^ 64"
      by linarith
    then show ?thesis
      by (simp add: to_bytes8_def length_be8 from_bytes_be8)
  qed
  show ?thesis
  proof (cases "\<not> expected_iterations_raises tz \<and> P (total_iterations tz mi) = None")
    case True
    with assms have "mine_loop ?c ?s0 = (out, s')"
      by (simp add: mine_entered)
    from mine_loop_evals [OF _ this, of 0] obtain k where
      k: "evals s' = evals ?s0
            @ map (\<lambda>n. (payload_at ?c (int n), digest_at ?c (int n))) [0..<0 + k]"
      and b: "0 < k \<and> int (0 + k) \<le> 2 ^ 64"
      by (auto simp: start_nonce)
    from k have "evals s' = evals g @ map ?ev [0..<k]"
      by (simp add: start_nonce payload_at_def digest_at_def mine_config_def)
    with b enc [of _ k] show ?thesis
      by (intro exI [of _ k]) (simp add: length_be8)
  next
    case False
    then have "expected_iterations_raises tz \<or> P (total_iterations tz mi) \<noteq> None"
      by auto
    with mine_not_entered [where P = P and tz = tz and mi = mi and H = H and ?t0.0 = t0
        and ?t1.0 = t1 and bh = block_hash and lh = ledger_hash and pub = pub and g = g] assms
    have "evals s' = evals g"
      by simp
    with False show ?thesis
      by (intro exI [of _ 0]) simp
  qed
qed

theorem mining_payloads_witness:
  "evals (snd (mine demo_hash (\<lambda>t. None) 0 1 (replicate 32 0) (replicate 32 0) (replicate 33 0)
                 None (Some 2) (globals0\<lparr>nonce := 7\<rparr>)))
     = map (\<lambda>n. (replicate 32 0 @ replicate 32 0 @ replicate 33 0 @ be8 (int n),
                  demo_hash (replicate 32 0 @ replicate 32 0 @ replicate 33 0 @ be8 (int n))))
         [0..<2]
   \<and> to_bytes8 1 = Inr (be8 1) \<and> from_bytes_big (be8 1) = 1
   \<and> length (replicate 32 0 @ replicate 32 0 @ replicate 33 (0::byte) @ be8 1) = 105"
proof -
  let ?g = "globals0\<lparr>nonce := 7\<rparr>"
  let ?r = "mine demo_hash (\<lambda>t. None) 0 1 (replicate 32 0) (replicate 32 0) (replicate 33 0)
              None (Some 2) ?g"
  let ?ev = "\<lambda>n. (replicate 32 0 @ replicate 32 0 @ replicate 33 0 @ be8 (int n),
                  demo_hash (replicate 32 0 @ replicate 32 0 @ replicate 33 0 @ be8 (int n)))"
  have len: "length (evals (snd ?r)) = 2"
    by (simp add: run_defs)
  have g: "evals ?g = []"
    by (simp add: globals0_def)
  have "?r = (fst ?r, snd ?r)"
    by simp
  from mining_payloads [OF this] obtain k where
    k: "evals (snd ?r) = evals ?g @ map ?ev [0..<k]"
    and enc: "\<forall>n < k. to_bytes8 (int n) = Inr (be8 (int n)) \<and> length (be8 (int n)) = 8
          \<and> from_bytes_big (be8 (int n)) = int n"
    and l: "length (replicate 32 (0::byte)) = 32 \<and> length (replicate 32 (0::byte)) = 32
            \<and> length (replicate 33 (0::byte)) = 33 \<longrightarrow>
          (\<forall>n < k. length (replicate 32 0 @ replicate 32 0 @ replicate 33 (0::byte) @ be8 (int n)) = 105)"
    by blast
  from k len g have k2: "k = 2"
    by simp
  from enc [rule_format, of 1] k2
  have "to_bytes8 (int 1) = Inr (be8 (int 1)) \<and> from_bytes_big (be8 (int 1)) = int 1"
    by simp
  moreover have "length (replicate 32 0 @ replicate 32 0 @ replicate 33 (0::byte) @ be8 (int 1)) = 105"
    by (simp add: length_be8)
  ultimately show ?thesis
    using k k2 g by simp
qed

text \<open>
  C9, as stated, fails: for the all-zero header the payload of nonce 0 has 105 bytes
  (32 + 32 + 33 + 8), not 73.
\<close>

theorem zero_header_payload_counterexample:
  "map (\<lambda>e. length (fst e))
     (evals (snd (mine demo_hash (\<lambda>t. None) 0 1 (replicate 32 0) (replicate 32 0) (replicate 33 0)
                    None (Some 1) globals0))) = [105]
   \<and> fst (hd (evals (snd (mine demo_hash (\<lambda>t. None) 0 1 (replicate 32 0) (replicate 32 0)
                    (replicate 33 0) None (Some 1) globals0)))) \<noteq> replicate 73 0"
proof -
  let ?r = "mine demo_hash (\<lambda>t. None) 0 1 (replicate 32 0) (replicate 32 0) (replicate 33 0)
              None (Some 1) globals0"
  have ev: "map fst (evals (snd ?r))
              = [replicate 32 0 @ replicate 32 0 @ replicate 33 0 @ [0, 0, 0, 0, 0, 0, 0, 0]]"
    by (simp add: run_defs)
  then have len: "map (\<lambda>e. length (fst e)) (evals (snd ?r)) = [105]"
    by (cases "evals (snd ?r)") auto
  from ev have "length (fst (hd (evals (snd ?r)))) = 105"
    by (cases "evals (snd ?r)") auto
  then have "fst (hd (evals (snd ?r))) \<noteq> replicate 73 0"
    by auto
  with len show ?thesis
    by simp
qed

text \<open>
  C9, amended. For the header of 32 zero bytes, 32 zero bytes and 33 zero bytes, the payload of
  nonce 0 is 105 zero bytes, and it is the first payload \<^verbatim>\<open>mine\<close> hashes in every call that
  enters the loop.
\<close>

theorem zero_header_payload:
  "payload_at (mine_config H t1 (replicate 32 0) (replicate 32 0) (replicate 33 0) tz mi) 0
     = replicate 105 0
   \<and> (\<not> expected_iterations_raises tz \<and> P (total_iterations tz mi) = None \<longrightarrow>
        (\<exists>rest. evals (snd (mine H P t0 t1 (replicate 32 0) (replicate 32 0) (replicate 33 0)
                              tz mi g))
           = evals g @ (replicate 105 0, H (replicate 105 0)) # rest))"
proof -
  let ?c = "mine_config H t1 (replicate 32 0) (replicate 32 0) (replicate 33 0) tz mi"
  let ?r = "mine H P t0 t1 (replicate 32 0) (replicate 32 0) (replicate 33 0) tz mi g"
  let ?s0 = "mine_start t0 (replicate 32 0) (replicate 32 0) (replicate 33 0) tz g"
  have "be8 0 = replicate 8 0"
    by (simp add: be8_def eval_nat_numeral)
  then have p: "payload_at ?c 0 = replicate 105 0"
    by (simp add: payload_at_def mine_config_def replicate_add [symmetric])
  have "\<exists>rest. evals (snd ?r) = evals g @ (replicate 105 0, H (replicate 105 0)) # rest"
    if ok: "\<not> expected_iterations_raises tz \<and> P (total_iterations tz mi) = None"
  proof -
    from ok have "mine_loop ?c ?s0 = (fst ?r, snd ?r)"
      by (simp add: mine_entered)
    from mine_loop_evals [OF _ this, of 0] obtain k where
      k: "evals (snd ?r) = evals ?s0
            @ map (\<lambda>n. (payload_at ?c (int n), digest_at ?c (int n))) [0..<0 + k]"
      and b: "0 < k"
      by (auto simp: start_nonce)
    from b have "[0..<0 + k] = 0 # [1..<k]"
      by (simp add: upt_rec)
    with k p show ?thesis
      by (simp add: start_nonce digest_at_def mine_config_def)
  qed
  with p show ?thesis
    by blast
qed

theorem zero_header_payload_witness:
  "\<not> expected_iterations_raises (Some 3)
   \<and> hd (evals (snd (mine demo_hash (\<lambda>t. None) 0 1 (replicate 32 0) (replicate 32 0)
                        (replicate 33 0) (Some 3) None globals0)))
       = (replicate 105 0, demo_hash (replicate 105 0))"
proof -
  have a: "\<not> expected_iterations_raises (Some 3)"
    by (simp add: expected_iterations_raises_def)
  with zero_header_payload [of demo_hash 1 "Some 3" None "\<lambda>t. None" 0 globals0]
  show ?thesis
    by (auto simp: globals0_def)
qed

section \<open>The recorded best\<close>

lemma best_inv_max:
  "best_inv c e s \<Longrightarrow> 0 \<le> n \<Longrightarrow> n < int e \<Longrightarrow> zeros_at c n \<le> best_leading_zeros s"
  by (simp add: best_inv_def)

lemma best_inv_digest:
  "best_inv c e s \<Longrightarrow> best_hash s = Some h \<Longrightarrow> h = digest_at c (best_nonce s)"
  by (simp add: best_inv_def)

lemma best_inv_attained:
  assumes "best_inv c e s" "0 < e"
  shows "0 \<le> best_nonce s \<and> best_nonce s < int e
         \<and> zeros_at c (best_nonce s) = best_leading_zeros s"
proof (cases "best_hash s")
  case None
  with assms(1) have z: "best_nonce s = 0" "best_leading_zeros s = 0"
    by (simp_all add: best_inv_def)
  from assms have "zeros_at c 0 \<le> best_leading_zeros s"
    by (intro best_inv_max [of c e]) simp_all
  with z zeros_at_nonneg [of c 0] assms(2) show ?thesis
    by simp
next
  case (Some h)
  with assms(1) show ?thesis
    by (simp add: best_inv_def)
qed

lemma best_inv_first:
  assumes "best_inv c e s" "0 \<le> n" "zeros_at c n = best_leading_zeros s"
  shows "best_nonce s \<le> n"
proof (cases "best_hash s")
  case None
  with assms(1,2) show ?thesis
    by (simp add: best_inv_def)
next
  case (Some h)
  with assms(1) have "\<forall>m. 0 \<le> m \<and> m < best_nonce s \<longrightarrow> zeros_at c m < best_leading_zeros s"
    by (auto simp: best_inv_def)
  with assms(2,3) show ?thesis
    by force
qed

lemma iterate_start_between:
  assumes "iterate (mine_config H t1 bh lh pub tz mi) k (mine_start t0 bh lh pub tz globals0)
             = Some s"
  shows "between (mine_config H t1 bh lh pub tz mi) k s"
  using iterate_between [OF between_start assms] by simp

section \<open>Interrupts and reports\<close>

lemma signal_handler_None:
  assumes "start_time s = Some t0" "best_hash s = None"
  shows "signal_handler now s
     = (Raised AttributeError,
        s\<lparr>stdout := stdout s @ [Rule, Title ''MINING INTERRUPTED'', Rule, BestNonce (best_nonce s)]\<rparr>)"
  using assms by (simp add: signal_handler_def report_def)

lemma signal_handler_Some:
  assumes "start_time s = Some t0" "best_hash s = Some h"
  shows "fst (signal_handler now s) = Exited 0"
  using assms by (simp add: signal_handler_def report_def Let_def)

text \<open>
  C10. Take a run from the module's initial globals that is interrupted after \<open>k\<close> completed
  passes. If none of the \<open>k\<close> digests computed so far has a leading zero bit, the recorded
  hash is still None and the handler raises AttributeError after the line with the best nonce,
  instead of printing the summary and exiting with status 0. The handler exits with status 0
  exactly when some digest computed so far has a leading zero bit.
\<close>

theorem interrupt_without_recorded_digest:
  assumes "iterate (mine_config H t1 block_hash ledger_hash pub tz mi) k
             (mine_start t0 block_hash ledger_hash pub tz globals0) = Some s"
  shows "((\<forall>n. 0 \<le> n \<and> n < int k \<longrightarrow>
              zeros_at (mine_config H t1 block_hash ledger_hash pub tz mi) n = 0) \<longrightarrow>
            best_hash s = None
            \<and> signal_handler now s
                = (Raised AttributeError,
                   s\<lparr>stdout := stdout s
                        @ [Rule, Title ''MINING INTERRUPTED'', Rule, BestNonce 0]\<rparr>))
    \<and> (fst (signal_handler now s) = Exited 0 \<longleftrightarrow>
          (\<exists>n. 0 \<le> n \<and> n < int k
               \<and> 0 < zeros_at (mine_config H t1 block_hash ledger_hash pub tz mi) n))"
proof -
  let ?c = "mine_config H t1 block_hash ledger_hash pub tz mi"
  from iterate_start_between [OF assms] have b: "between ?c k s" .
  then obtain ts where ts: "start_time s = Some ts"
    by (auto simp: between_def)
  from b have inv: "best_inv ?c k s"
    by (simp add: between_def)
  have falls: "best_hash s = None
      \<and> signal_handler now s
            = (Raised AttributeError,
               s\<lparr>stdout := stdout s @ [Rule, Title ''MINING INTERRUPTED'', Rule, BestNonce 0]\<rparr>)"
    if all0: "\<forall>n. 0 \<le> n \<and> n < int k \<longrightarrow> zeros_at ?c n = 0"
  proof (cases "best_hash s")
    case None
    with inv have "best_nonce s = 0"
      by (simp add: best_inv_def)
    with signal_handler_None [OF ts None, of now] None show ?thesis
      by simp
  next
    case (Some h)
    with inv have "0 \<le> best_nonce s \<and> best_nonce s < int k \<and> 0 < zeros_at ?c (best_nonce s)"
      by (simp add: best_inv_def)
    with all0 show ?thesis
      by fastforce
  qed
  have exits: "fst (signal_handler now s) = Exited 0 \<longleftrightarrow>
      (\<exists>n. 0 \<le> n \<and> n < int k \<and> 0 < zeros_at ?c n)"
  proof (cases "best_hash s")
    case None
    with inv have "best_leading_zeros s = 0"
      by (simp add: best_inv_def)
    then have "\<not> (\<exists>n. 0 \<le> n \<and> n < int k \<and> 0 < zeros_at ?c n)"
      using best_inv_max [OF inv] by fastforce
    with signal_handler_None [OF ts None, of now] show ?thesis
      by simp
  next
    case (Some h)
    with inv have "0 \<le> best_nonce s \<and> best_nonce s < int k \<and> 0 < zeros_at ?c (best_nonce s)"
      by (simp add: best_inv_def)
    then have "\<exists>n. 0 \<le> n \<and> n < int k \<and> 0 < zeros_at ?c n"
      by blast
    with signal_handler_Some [OF ts Some, of now] show ?thesis
      by simp
  qed
  from falls exits show ?thesis
    by blast
qed

theorem interrupt_without_recorded_digest_witness:
  "iterate (mine_config demo_hash 1 [] [] [] None None) 1 (mine_start 0 [] [] [] None globals0)
     \<noteq> None
   \<and> zeros_at (mine_config demo_hash 1 [] [] [] None None) 0 = 0
   \<and> fst (signal_handler 5
            (the (iterate (mine_config demo_hash 1 [] [] [] None None) 1
                    (mine_start 0 [] [] [] None globals0)))) = Raised AttributeError
   \<and> fst (signal_handler 5
            (the (iterate (mine_config demo_hash 1 [] [] [] None None) 2
                    (mine_start 0 [] [] [] None globals0)))) = Exited 0"
proof -
  let ?c = "mine_config demo_hash 1 [] [] [] None None"
  let ?s0 = "mine_start 0 [] [] [] None globals0"
  have z0: "zeros_at ?c 0 = 0" and z1: "zeros_at ?c 1 = 1"
    by (simp_all add: zeros_at_def digest_at_def payload_at_def run_defs)
  have "iterate ?c (Suc 0) ?s0 \<noteq> None"
    by (simp add: run_defs)
  then obtain s1 where s1: "iterate ?c 1 ?s0 = Some s1"
    by auto
  have "iterate ?c (Suc (Suc 0)) ?s0 \<noteq> None"
    by (simp add: run_defs)
  then obtain s2 where s2: "iterate ?c 2 ?s0 = Some s2"
    by (auto simp: numeral_2_eq_2)
  have all0: "\<forall>n. 0 \<le> n \<and> n < int 1 \<longrightarrow> zeros_at ?c n = 0"
    using z0 by (auto simp: order.order_iff_strict)
  have ex1: "\<exists>n. 0 \<le> n \<and> n < int 2 \<and> 0 < zeros_at ?c n"
    using z1 by (intro exI [of _ 1]) simp
  from interrupt_without_recorded_digest [OF s1, of 5] all0
  have "fst (signal_handler 5 s1) = Raised AttributeError"
    by simp
  moreover from interrupt_without_recorded_digest [OF s2, of 5] ex1
  have "fst (signal_handler 5 s2) = Exited 0"
    by blast
  ultimately show ?thesis
    using s1 s2 z0 by simp
qed

text \<open>
  C5, what the code does instead: the globals start at \<^verbatim>\<open>best_leading_zeros = 0\<close> and
  \<^verbatim>\<open>best_hash = None\<close>, and the comparison is strict, so a first digest without a leading
  zero bit is computed and not recorded.
\<close>

theorem first_digest_not_recorded:
  assumes "zeros_at (mine_config H t1 block_hash ledger_hash pub tz mi) 0 = 0"
    and "iteration (mine_config H t1 block_hash ledger_hash pub tz mi)
           (mine_start t0 block_hash ledger_hash pub tz globals0) = (f, s1)"
  shows "evals s1 = [(block_hash @ ledger_hash @ pub @ be8 0,
                      H (block_hash @ ledger_hash @ pub @ be8 0))]
    \<and> best_hash s1 = None \<and> best_nonce s1 = 0 \<and> best_leading_zeros s1 = 0
    \<and> stdout s1 = banner block_hash ledger_hash pub tz"
  using assms
  by (auto simp: iteration_keep finish_iteration_eq mine_start_def globals0_def
      payload_at_def digest_at_def mine_config_def)

theorem first_digest_not_recorded_witness:
  "zeros_at (mine_config demo_hash 1 [] [] [] None (Some 1)) 0 = 0
   \<and> best_hash (snd (iteration (mine_config demo_hash 1 [] [] [] None (Some 1))
                        (mine_start 0 [] [] [] None globals0))) = None
   \<and> map fst (evals (snd (iteration (mine_config demo_hash 1 [] [] [] None (Some 1))
                        (mine_start 0 [] [] [] None globals0)))) = [be8 0]"
proof -
  let ?c = "mine_config demo_hash 1 [] [] [] None (Some 1)"
  let ?s0 = "mine_start 0 [] [] [] None globals0"
  have z0: "zeros_at ?c 0 = 0"
    by (simp add: zeros_at_def digest_at_def payload_at_def run_defs)
  have "iteration ?c ?s0 = (fst (iteration ?c ?s0), snd (iteration ?c ?s0))"
    by simp
  from first_digest_not_recorded [OF z0 this] z0 show ?thesis
    by simp
qed

text \<open>
  C1, what the code does instead. When the cap ends the run, \<^verbatim>\<open>mine\<close> returns without
  any summary: with a cap of 1 the output is the start banner and at most one "New best"
  line. When the target ends the run, the summary is printed before the counter is
  incremented: if the digest of nonce 0 reaches the target, one digest has been computed and
  the summary says 0 iterations.
\<close>

theorem final_report_defects:
  "(P (total_iterations None (Some 1)) = None
      \<and> mine H P t0 t1 block_hash ledger_hash pub None (Some 1) globals0 = (out, s') \<longrightarrow>
     out = Returned \<and> iterations s' = 1 \<and> length (evals s') = 1
     \<and> stdout s' = banner block_hash ledger_hash pub None
          @ (if 0 < zeros_at (mine_config H t1 block_hash ledger_hash pub None (Some 1)) 0
             then [NewBest 0 (zeros_at (mine_config H t1 block_hash ledger_hash pub None (Some 1)) 0)
                     (digest_at (mine_config H t1 block_hash ledger_hash pub None (Some 1)) 0)]
             else []))
   \<and> (0 < zeros_at (mine_config H t1 block_hash ledger_hash pub tz mi) 0
      \<and> reached tz (zeros_at (mine_config H t1 block_hash ledger_hash pub tz mi) 0)
      \<and> \<not> expected_iterations_raises tz \<and> P (total_iterations tz mi) = None
      \<and> mine H P t0 t1 block_hash ledger_hash pub tz mi globals0 = (out, s') \<longrightarrow>
        out = Returned \<and> length (evals s') = 1 \<and> iterations s' = 0
        \<and> TotalIterations 0 \<in> set (stdout s'))"
proof (rule conjI; rule impI; elim conjE)
  let ?c = "mine_config H t1 block_hash ledger_hash pub None (Some 1)"
  let ?s0 = "mine_start t0 block_hash ledger_hash pub None globals0"
  assume p: "P (total_iterations None (Some 1)) = None"
    and m: "mine H P t0 t1 block_hash ledger_hash pub None (Some 1) globals0 = (out, s')"
  have mi: "max_iterations ?c = Some 1" "target_zeros ?c = None"
    by (simp_all add: mine_config_def)
  have g0: "iterations globals0 = 0" "best_leading_zeros globals0 = 0" "stdout globals0 = []"
    "evals globals0 = []"
    by (simp_all add: globals0_def)
  from p m have loop: "mine_loop ?c ?s0 = (out, s')"
    by (simp add: mine_entered expected_iterations_raises_def)
  show "out = Returned \<and> iterations s' = 1 \<and> length (evals s') = 1
     \<and> stdout s' = banner block_hash ledger_hash pub None
          @ (if 0 < zeros_at ?c 0 then [NewBest 0 (zeros_at ?c 0) (digest_at ?c 0)] else [])"
  proof (cases "0 < zeros_at ?c 0")
    case True
    have "iteration ?c ?s0 = finish_iteration ?c
       (?s0\<lparr>evals := evals ?s0 @ [(payload_at ?c (nonce ?s0), digest_at ?c (nonce ?s0))],
          best_nonce := nonce ?s0, best_hash := Some (digest_at ?c (nonce ?s0)),
          best_leading_zeros := zeros_at ?c (nonce ?s0),
          stdout := stdout ?s0 @ [NewBest (nonce ?s0) (zeros_at ?c (nonce ?s0)) (digest_at ?c (nonce ?s0))]\<rparr>)"
      using True by (intro iteration_improve) (simp_all add: start_nonce g0 mi reached_def)
    with loop True show ?thesis
      by (subst (asm) mine_loop.simps)
         (auto simp: finish_iteration_eq start_nonce g0 mi reached_def)
  next
    case False
    have "iteration ?c ?s0 = finish_iteration ?c
       (?s0\<lparr>evals := evals ?s0 @ [(payload_at ?c (nonce ?s0), digest_at ?c (nonce ?s0))]\<rparr>)"
      using False by (intro iteration_keep) (simp_all add: start_nonce g0)
    with loop False show ?thesis
      by (subst (asm) mine_loop.simps)
         (auto simp: finish_iteration_eq start_nonce g0 mi reached_def)
  qed
next
  let ?c = "mine_config H t1 block_hash ledger_hash pub tz mi"
  let ?s0 = "mine_start t0 block_hash ledger_hash pub tz globals0"
  assume z: "0 < zeros_at ?c 0" and r: "reached tz (zeros_at ?c 0)"
    and ok: "\<not> expected_iterations_raises tz" "P (total_iterations tz mi) = None"
    and m: "mine H P t0 t1 block_hash ledger_hash pub tz mi globals0 = (out, s')"
  have tz: "target_zeros ?c = tz"
    by (simp add: mine_config_def)
  have g0: "iterations globals0 = 0" "best_leading_zeros globals0 = 0" "evals globals0 = []"
    by (simp_all add: globals0_def)
  from ok m have loop: "mine_loop ?c ?s0 = (out, s')"
    by (simp add: mine_entered)
  have "fst (iteration ?c ?s0) = Break \<and> length (evals (snd (iteration ?c ?s0))) = 1
        \<and> iterations (snd (iteration ?c ?s0)) = 0
        \<and> TotalIterations 0 \<in> set (stdout (snd (iteration ?c ?s0)))"
    using z r
    by (subst iteration_target [where ?t0.0 = t0], simp_all add: start_nonce g0 tz)+
  with loop show "out = Returned \<and> length (evals s') = 1 \<and> iterations s' = 0
        \<and> TotalIterations 0 \<in> set (stdout s')"
    by (subst (asm) mine_loop.simps) (auto split: prod.splits flow.splits)
qed

theorem final_report_defects_witness:
  "mine demo_hash (\<lambda>t. None) 0 1 [] [] [] None (Some 1) globals0
     = (Returned, snd (mine demo_hash (\<lambda>t. None) 0 1 [] [] [] None (Some 1) globals0))
   \<and> length (evals (snd (mine demo_hash (\<lambda>t. None) 0 1 [] [] [] None (Some 1) globals0))) = 1
   \<and> stdout (snd (mine demo_hash (\<lambda>t. None) 0 1 [] [] [] None (Some 1) globals0))
        = banner [] [] [] None
   \<and> reached (Some 2) (zeros_at (mine_config (\<lambda>m. [0x1F, 0xFF]) 1 [] [] [] (Some 2) None) 0)
   \<and> length (evals (snd (mine (\<lambda>m. [0x1F, 0xFF]) (\<lambda>t. None) 0 1 [] [] [] (Some 2) None
                              globals0))) = 1
   \<and> TotalIterations 0
        \<in> set (stdout (snd (mine (\<lambda>m. [0x1F, 0xFF]) (\<lambda>t. None) 0 1 [] [] [] (Some 2) None
                                 globals0)))"
proof -
  let ?r = "mine demo_hash (\<lambda>t. None) 0 1 [] [] [] None (Some 1) globals0"
  let ?c = "mine_config demo_hash 1 [] [] [] None (Some 1)"
  let ?q = "mine (\<lambda>m. [0x1F, 0xFF]) (\<lambda>t. None) 0 1 [] [] [] (Some 2) None globals0"
  let ?d = "mine_config (\<lambda>m. [0x1F, 0xFF]) 1 [] [] [] (Some 2) None"
  have z0: "zeros_at ?c 0 = 0"
    by (simp add: zeros_at_def digest_at_def payload_at_def run_defs)
  have z1: "zeros_at ?d 0 = 3"
    by (simp add: zeros_at_def digest_at_def payload_at_def mine_config_def
        count_leading_zero_bits_def)
  have ok: "\<not> expected_iterations_raises (Some 2)"
    by (simp add: expected_iterations_raises_def)
  have r: "?r = (fst ?r, snd ?r)" and q: "?q = (fst ?q, snd ?q)"
    by simp_all
  from final_report_defects [where H = demo_hash and P = "\<lambda>t. None" and ?t0.0 = 0 and ?t1.0 = 1
      and block_hash = "[]" and ledger_hash = "[]" and pub = "[]" and out = "fst ?r"
      and s' = "snd ?r"] r z0
  have a: "fst ?r = Returned \<and> length (evals (snd ?r)) = 1
      \<and> stdout (snd ?r) = banner [] [] [] None"
    by simp
  from final_report_defects [where H = "\<lambda>m. [0x1F, 0xFF]" and P = "\<lambda>t. None" and ?t0.0 = 0
      and ?t1.0 = 1 and block_hash = "[]" and ledger_hash = "[]" and pub = "[]"
      and out = "fst ?q" and s' = "snd ?q" and tz = "Some 2" and mi = None] q z1 ok
  have b: "length (evals (snd ?q)) = 1 \<and> TotalIterations 0 \<in> set (stdout (snd ?q))"
    by (simp add: reached_def)
  from a have "?r = (Returned, snd ?r)"
    by (metis r)
  with a b z1 show ?thesis
    by (simp add: reached_def)
qed

text \<open>
  C4, what the code does instead. The record starts as nonce 0, no digest, count 0, and only
  a strictly greater count replaces it: when the digest of nonce 0 has no leading zero bit,
  a run with a cap of 1 ends with the recorded nonce 0 and no recorded digest, although the
  digest of nonce 0 has been computed. The recorded digest is then not the digest of the
  recorded nonce.
\<close>

theorem recorded_digest_missing:
  assumes "zeros_at (mine_config H t1 block_hash ledger_hash pub None (Some 1)) 0 = 0"
    and "P (total_iterations None (Some 1)) = None"
    and "mine H P t0 t1 block_hash ledger_hash pub None (Some 1) globals0 = (out, s')"
  shows "out = Returned
    \<and> evals s' = [(block_hash @ ledger_hash @ pub @ be8 0,
                    H (block_hash @ ledger_hash @ pub @ be8 0))]
    \<and> best_nonce s' = 0 \<and> best_leading_zeros s' = 0 \<and> best_hash s' = None
    \<and> best_hash s'
         \<noteq> Some (digest_at (mine_config H t1 block_hash ledger_hash pub None (Some 1))
                   (best_nonce s'))"
proof -
  let ?c = "mine_config H t1 block_hash ledger_hash pub None (Some 1)"
  let ?s0 = "mine_start t0 block_hash ledger_hash pub None globals0"
  have mi: "max_iterations ?c = Some 1"
    by (simp add: mine_config_def)
  have g0: "iterations globals0 = 0" "best_leading_zeros globals0 = 0" "evals globals0 = []"
    "best_hash globals0 = None" "best_nonce globals0 = 0"
    by (simp_all add: globals0_def)
  from assms(2,3) have loop: "mine_loop ?c ?s0 = (out, s')"
    by (simp add: mine_entered expected_iterations_raises_def)
  have "iteration ?c ?s0 = finish_iteration ?c
       (?s0\<lparr>evals := evals ?s0 @ [(payload_at ?c (nonce ?s0), digest_at ?c (nonce ?s0))]\<rparr>)"
    using assms(1) by (intro iteration_keep) (simp_all add: start_nonce g0)
  with loop show ?thesis
    by (subst (asm) mine_loop.simps)
       (auto simp: finish_iteration_eq start_nonce g0 mi reached_def payload_at_def
         digest_at_def mine_config_def)
qed

theorem recorded_digest_missing_witness:
  "zeros_at (mine_config demo_hash 1 [] [] [] None (Some 1)) 0 = 0
   \<and> best_nonce (snd (mine demo_hash (\<lambda>t. None) 0 1 [] [] [] None (Some 1) globals0)) = 0
   \<and> best_hash (snd (mine demo_hash (\<lambda>t. None) 0 1 [] [] [] None (Some 1) globals0)) = None
   \<and> map fst (evals (snd (mine demo_hash (\<lambda>t. None) 0 1 [] [] [] None (Some 1) globals0)))
        = [be8 0]"
proof -
  let ?r = "mine demo_hash (\<lambda>t. None) 0 1 [] [] [] None (Some 1) globals0"
  have z0: "zeros_at (mine_config demo_hash 1 [] [] [] None (Some 1)) 0 = 0"
    by (simp add: zeros_at_def digest_at_def payload_at_def run_defs)
  have "?r = (fst ?r, snd ?r)"
    by simp
  from recorded_digest_missing [OF z0 _ this] z0 show ?thesis
    by simp
qed

section \<open>Runs that no target ends\<close>

lemma iteration_no_target:
  assumes "0 \<le> nonce s" "nonce s < 2 ^ 64"
    "\<not> reached (target_zeros c) (zeros_at c (nonce s))"
  shows "\<exists>s1. iteration c s
             = (if reached (max_iterations c) (iterations s + 1) then Break else Continue, s1)
          \<and> nonce s1 = nonce s + 1 \<and> iterations s1 = iterations s + 1
          \<and> length (evals s1) = length (evals s) + 1"
proof (cases "zeros_at c (nonce s) \<le> best_leading_zeros s")
  case True
  show ?thesis
    unfolding iteration_keep [OF assms(1,2) True] finish_iteration_eq by simp
next
  case False
  then have "best_leading_zeros s < zeros_at c (nonce s)"
    by simp
  from iteration_improve [OF assms(1,2) this assms(3)] show ?thesis
    unfolding finish_iteration_eq by simp
qed

lemma capped_run:
  assumes "max_iterations c = Some N" "0 \<le> nonce s" "iterations s = nonce s" "nonce s < N"
    "N \<le> 2 ^ 64"
    "\<forall>n. nonce s \<le> n \<and> n < N \<longrightarrow> \<not> reached (target_zeros c) (zeros_at c n)"
  shows "fst (mine_loop c s) = Returned \<and> iterations (snd (mine_loop c s)) = N
         \<and> int (length (evals (snd (mine_loop c s)))) = int (length (evals s)) + (N - nonce s)"
  using assms
proof (induction c s rule: mine_loop.induct)
  case (1 c s)
  from "1.prems" have lt: "nonce s < 2 ^ 64"
    by simp
  from "1.prems" have nt: "\<not> reached (target_zeros c) (zeros_at c (nonce s))"
    by simp
  from iteration_no_target [OF "1.prems"(2) lt nt] obtain s1 where
    it: "iteration c s = (if reached (max_iterations c) (iterations s + 1) then Break else Continue, s1)"
    and s1: "nonce s1 = nonce s + 1" "iterations s1 = iterations s + 1"
      "length (evals s1) = length (evals s) + 1"
    by blast
  show ?case
  proof (cases "iterations s + 1 = N")
    case True
    with "1.prems" have "reached (max_iterations c) (iterations s + 1)"
      by (simp add: reached_def)
    with it have "mine_loop c s = (Returned, s1)"
      by (subst mine_loop.simps) simp
    with s1 True "1.prems"(3) show ?thesis
      by simp
  next
    case False
    with "1.prems" have less: "nonce s1 < N"
      by (simp add: s1)
    from "1.prems" False have "\<not> reached (max_iterations c) (iterations s + 1)"
      by (simp add: reached_def)
    with it have c: "iteration c s = (Continue, s1)" and loop: "mine_loop c s = mine_loop c s1"
      by (simp, subst mine_loop.simps, simp)
    have "fst (mine_loop c s1) = Returned \<and> iterations (snd (mine_loop c s1)) = N
         \<and> int (length (evals (snd (mine_loop c s1)))) = int (length (evals s1)) + (N - nonce s1)"
      using "1.prems" less s1
      by (intro "1.IH" [OF c [symmetric] refl]) simp_all
    with loop s1 show ?thesis
      by simp
  qed
qed

lemma unbounded_run:
  assumes "\<forall>v. \<not> reached (max_iterations c) v" "\<forall>v. \<not> reached (target_zeros c) v"
    "0 \<le> nonce s" "nonce s \<le> 2 ^ 64"
  shows "fst (mine_loop c s) = Raised OverflowError
         \<and> iterations (snd (mine_loop c s)) = iterations s + (2 ^ 64 - nonce s)
         \<and> int (length (evals (snd (mine_loop c s)))) = int (length (evals s)) + (2 ^ 64 - nonce s)"
  using assms
proof (induction c s rule: mine_loop.induct)
  case (1 c s)
  show ?case
  proof (cases "nonce s = 2 ^ 64")
    case True
    then have "iteration c s = (Raise OverflowError, s)"
      by (intro iteration_overflow) simp
    then have "mine_loop c s = (Raised OverflowError, s)"
      by (subst mine_loop.simps) simp
    with True show ?thesis
      by simp
  next
    case False
    with "1.prems" have lt: "nonce s < 2 ^ 64"
      by simp
    from "1.prems" have nt: "\<not> reached (target_zeros c) (zeros_at c (nonce s))"
      by simp
    from iteration_no_target [OF "1.prems"(3) lt nt] "1.prems"(1) obtain s1 where
      it: "iteration c s = (Continue, s1)"
      and s1: "nonce s1 = nonce s + 1" "iterations s1 = iterations s + 1"
        "length (evals s1) = length (evals s) + 1"
      by auto
    from it have loop: "mine_loop c s = mine_loop c s1"
      by (subst mine_loop.simps) simp
    have "fst (mine_loop c s1) = Raised OverflowError
         \<and> iterations (snd (mine_loop c s1)) = iterations s1 + (2 ^ 64 - nonce s1)
         \<and> int (length (evals (snd (mine_loop c s1)))) = int (length (evals s1)) + (2 ^ 64 - nonce s1)"
      using "1.prems" lt s1
      by (intro "1.IH" [OF it [symmetric] refl]) simp_all
    with loop s1 show ?thesis
      by simp
  qed
qed


text \<open>
  C6, as stated, fails in three ways. A cap of 0 is taken for no cap (the test is
  \<^verbatim>\<open>max_iterations and ...\<close>): the run does not stop after 0 digests, it goes on until the
  nonce no longer fits 8 bytes. The counter \<^verbatim>\<open>iterations\<close> is a global that \<^verbatim>\<open>mine\<close>
  never resets: a second call with a cap of 5, after a first one that counted to 2, computes
  3 digests. And with a target of 14285 the banner raises ValueError before the loop: no
  digest is computed whatever the cap.
\<close>

theorem capped_run_counts_counterexample:
  "fst (mine demo_hash (\<lambda>t. None) 0 1 (replicate 32 0) (replicate 32 0) (replicate 33 0)
          None (Some 0) globals0) = Raised OverflowError
   \<and> int (length (evals (snd (mine demo_hash (\<lambda>t. None) 0 1 (replicate 32 0) (replicate 32 0)
          (replicate 33 0) None (Some 0) globals0)))) = 2 ^ 64
   \<and> length (evals (snd (mine demo_hash (\<lambda>t. None) 0 1 [] [] [] None (Some 2) globals0))) = 2
   \<and> length (evals (snd (mine demo_hash (\<lambda>t. None) 0 1 [] [] [] None (Some 5)
          (snd (mine demo_hash (\<lambda>t. None) 0 1 [] [] [] None (Some 2) globals0))))) = 2 + 3
   \<and> mine demo_hash (\<lambda>t. None) 0 1 [] [] [] (Some 14285) (Some 5) globals0
       = (Raised ValueError,
          globals0\<lparr>start_time := Some 0,
                   stdout := banner_head [] [] [] @ [TargetZerosLine 14285]\<rparr>)"
proof -
  let ?c = "mine_config demo_hash 1 (replicate 32 0) (replicate 32 0) (replicate 33 0)
              None (Some 0)"
  let ?s0 = "mine_start 0 (replicate 32 0) (replicate 32 0) (replicate 33 0) None globals0"
  have "fst (mine_loop ?c ?s0) = Raised OverflowError
         \<and> iterations (snd (mine_loop ?c ?s0)) = iterations ?s0 + (2 ^ 64 - nonce ?s0)
         \<and> int (length (evals (snd (mine_loop ?c ?s0)))) = int (length (evals ?s0)) + (2 ^ 64 - nonce ?s0)"
    by (rule unbounded_run) (simp_all add: mine_config_def reached_def start_nonce)
  then have a: "fst (mine demo_hash (\<lambda>t. None) 0 1 (replicate 32 0) (replicate 32 0)
          (replicate 33 0) None (Some 0) globals0) = Raised OverflowError
   \<and> int (length (evals (snd (mine demo_hash (\<lambda>t. None) 0 1 (replicate 32 0) (replicate 32 0)
          (replicate 33 0) None (Some 0) globals0)))) = 2 ^ 64"
    by (simp add: mine_entered expected_iterations_raises_def start_nonce globals0_def)
  have b: "length (evals (snd (mine demo_hash (\<lambda>t. None) 0 1 [] [] [] None (Some 2) globals0))) = 2"
    by (simp add: run_defs)
  have c: "length (evals (snd (mine demo_hash (\<lambda>t. None) 0 1 [] [] [] None (Some 5)
          (snd (mine demo_hash (\<lambda>t. None) 0 1 [] [] [] None (Some 2) globals0))))) = 2 + 3"
    by (simp add: run_defs)
  have d: "mine demo_hash (\<lambda>t. None) 0 1 [] [] [] (Some 14285) (Some 5) globals0
       = (Raised ValueError,
          globals0\<lparr>start_time := Some 0,
                   stdout := banner_head [] [] [] @ [TargetZerosLine 14285]\<rparr>)"
    by (simp add: mine_def expected_iterations_raises_def globals0_def)
  from a b c d show ?thesis
    by simp
qed

text \<open>
  C6, amended. For every cap \<open>N\<close> from 1 to \<open>2 ^ 64\<close>: when the global counter
  \<^verbatim>\<open>iterations\<close> is 0 at the call, the banner and the progress bar do not raise, and none
  of the nonces below \<open>N\<close> has a digest that reaches the target, the call computes exactly
  \<open>N\<close> digests, returns, and leaves the counter at \<open>N\<close>.
\<close>

theorem capped_run_counts:
  assumes "1 \<le> N" "N \<le> 2 ^ 64" "iterations g = 0"
    "\<not> expected_iterations_raises tz" "P (total_iterations tz (Some N)) = None"
    "\<forall>n. 0 \<le> n \<and> n < N \<longrightarrow>
        \<not> reached tz (zeros_at (mine_config H t1 block_hash ledger_hash pub tz (Some N)) n)"
  shows "fst (mine H P t0 t1 block_hash ledger_hash pub tz (Some N) g) = Returned
    \<and> iterations (snd (mine H P t0 t1 block_hash ledger_hash pub tz (Some N) g)) = N
    \<and> int (length (evals (snd (mine H P t0 t1 block_hash ledger_hash pub tz (Some N) g))))
        = int (length (evals g)) + N"
proof -
  let ?c = "mine_config H t1 block_hash ledger_hash pub tz (Some N)"
  let ?s0 = "mine_start t0 block_hash ledger_hash pub tz g"
  have "fst (mine_loop ?c ?s0) = Returned \<and> iterations (snd (mine_loop ?c ?s0)) = N
         \<and> int (length (evals (snd (mine_loop ?c ?s0)))) = int (length (evals ?s0)) + (N - nonce ?s0)"
    using assms by (intro capped_run) (simp_all add: mine_config_def start_nonce)
  with assms(4,5) show ?thesis
    by (simp add: mine_entered start_nonce)
qed

theorem capped_run_counts_witness:
  "(1::int) \<le> 3 \<and> (3::int) \<le> 2 ^ 64
   \<and> iterations (globals0\<lparr>best_leading_zeros := 5, nonce := 9\<rparr>) = 0
   \<and> fst (mine demo_hash (\<lambda>t. None) 0 1 [] [] [] None (Some 3)
            (globals0\<lparr>best_leading_zeros := 5, nonce := 9\<rparr>)) = Returned
   \<and> iterations (snd (mine demo_hash (\<lambda>t. None) 0 1 [] [] [] None (Some 3)
            (globals0\<lparr>best_leading_zeros := 5, nonce := 9\<rparr>))) = 3
   \<and> int (length (evals (snd (mine demo_hash (\<lambda>t. None) 0 1 [] [] [] None (Some 3)
            (globals0\<lparr>best_leading_zeros := 5, nonce := 9\<rparr>))))) = 3"
  using capped_run_counts [where N = 3 and tz = None and H = demo_hash and P = "\<lambda>t. None"
      and ?t1.0 = 1 and ?t0.0 = 0 and block_hash = "[]" and ledger_hash = "[]" and pub = "[]"
      and g = "globals0\<lparr>best_leading_zeros := 5, nonce := 9\<rparr>"]
  by (simp add: reached_def expected_iterations_raises_def globals0_def)

section \<open>Hexadecimal arguments\<close>




















section \<open>Validation of the header\<close>








end
